theory Spec2Isabelle
  imports Main "HOL-Library.Multiset"
begin

unbundle bit_operations_syntax

section \<open>Exceptions\<close>

text \<open>
  The exceptions of \<^verbatim>\<open>network_scanner.py\<close> are values. Every constructor is a
  subclass of Python's \<^verbatim>\<open>Exception\<close>; \<^verbatim>\<open>main\<close> tells \<^verbatim>\<open>ValueError\<close> from
  the rest, \<^verbatim>\<open>ping_host\<close> names \<^verbatim>\<open>subprocess.TimeoutExpired\<close>.
\<close>

datatype exn =
    ValueError string
  | TimeoutExpired
  | OSError string
  | OtherError string

fun is_ValueError :: "exn \<Rightarrow> bool" where
  "is_ValueError (ValueError m) = True"
| "is_ValueError e = False"

section \<open>The address enumerator: \<^verbatim>\<open>ipaddress.ip_network(text, strict=False).hosts()\<close>\<close>

text \<open>
  Python integers are unbounded, so an address is a \<^typ>\<open>nat\<close>; the bitwise operators are
  those of the standard library module \<^verbatim>\<open>ipaddress\<close>:
  \<^verbatim>\<open>_ALL_ONES = 2**32 - 1\<close>,
  \<^verbatim>\<open>_ip_int_from_prefix(p) = _ALL_ONES ^ (_ALL_ONES >> p)\<close>,
  \<^verbatim>\<open>hostmask = netmask ^ _ALL_ONES\<close>,
  \<^verbatim>\<open>broadcast_address = network_address | hostmask\<close>.
\<close>

definition ALL_ONES :: nat where
  "ALL_ONES = 2 ^ 32 - 1"

definition ip_int_from_prefix :: "nat \<Rightarrow> nat" where
  "ip_int_from_prefix p = ALL_ONES XOR (drop_bit p ALL_ONES)"

record ipv4network =
  network_address :: nat
  prefixlen :: nat

definition netmask :: "ipv4network \<Rightarrow> nat" where
  "netmask net = ip_int_from_prefix (prefixlen net)"

definition hostmask :: "ipv4network \<Rightarrow> nat" where
  "hostmask net = netmask net XOR ALL_ONES"

definition broadcast_address :: "ipv4network \<Rightarrow> nat" where
  "broadcast_address net = network_address net OR hostmask net"

text \<open>
  The text parser of \<^verbatim>\<open>ipaddress\<close> is not part of the program: it is the parameter
  \<open>parse\<close>, which reads a text as an address and a prefix length or fails. With
  \<^verbatim>\<open>strict=False\<close> the constructor does not reject host bits, it clears them:
  \<^verbatim>\<open>network_address = IPv4Address(packed & int(netmask))\<close>.
\<close>

type_synonym parser = "string \<Rightarrow> (nat \<times> nat) option"

definition ip_network :: "parser \<Rightarrow> string \<Rightarrow> exn + ipv4network" where
  "ip_network parse txt =
     (case parse txt of
        None \<Rightarrow> Inl (ValueError ''does not appear to be an IPv4 network'')
      | Some (a, p) \<Rightarrow>
          if a < 2 ^ 32 \<and> p \<le> 32
          then Inr \<lparr>network_address = a AND ip_int_from_prefix p, prefixlen = p\<rparr>
          else Inl (ValueError ''does not appear to be an IPv4 network''))"

text \<open>
  \<^verbatim>\<open>hosts()\<close>: \<^verbatim>\<open>range(network + 1, broadcast)\<close> in general; the constructor replaces
  it by \<^verbatim>\<open>__iter__\<close> (\<^verbatim>\<open>range(network, broadcast + 1)\<close>) for a /31 and by the
  one-element list of the address for a /32.
\<close>

definition hosts :: "ipv4network \<Rightarrow> nat list" where
  "hosts net =
     (if prefixlen net = 31 then [network_address net ..< broadcast_address net + 1]
      else if prefixlen net = 32 then [network_address net]
      else [network_address net + 1 ..< broadcast_address net])"

subsection \<open>\<^verbatim>\<open>str(ip)\<close>: dotted decimal\<close>

definition digit :: "nat \<Rightarrow> char" where
  "digit d = ''0123456789'' ! d"

function str_nat :: "nat \<Rightarrow> string" where
  "str_nat n = (if n < 10 then [digit n] else str_nat (n div 10) @ [digit (n mod 10)])"
  by pat_completeness auto
termination
  by (relation "measure id") auto

declare str_nat.simps [simp del]

fun join :: "string \<Rightarrow> string list \<Rightarrow> string" where
  "join sep [] = []"
| "join sep [x] = x"
| "join sep (x # y # ys) = x @ sep @ join sep (y # ys)"

definition to_bytes4 :: "nat \<Rightarrow> nat list" where
  "to_bytes4 n = [n div 2 ^ 24 mod 256, n div 2 ^ 16 mod 256, n div 2 ^ 8 mod 256, n mod 256]"

definition str_ip :: "nat \<Rightarrow> string" where
  "str_ip n = join ''.'' (map str_nat (to_bytes4 n))"

text \<open>
  A few texts as \<^verbatim>\<open>ipaddress\<close> reads them, for the examples: address and prefix length.
  Any other text is malformed for this sample.
\<close>

definition sample_parse :: parser where
  "sample_parse t =
     (if t = ''192.168.1.0/30'' then Some (3232235776, 30)
      else if t = ''192.168.1.5/24'' then Some (3232235781, 24)
      else if t = ''10.0.0.5/31'' then Some (167772165, 31)
      else if t = ''10.0.0.7/32'' then Some (167772167, 32)
      else None)"

section \<open>The reachability probe: \<^verbatim>\<open>platform_ping_command\<close> and \<^verbatim>\<open>ping_host\<close>\<close>

text \<open>\<^verbatim>\<open>str.lower()\<close> on the ASCII letters, which is all \<^verbatim>\<open>platform.system()\<close> returns.\<close>

definition lower_char :: "char \<Rightarrow> char" where
  "lower_char c =
     (case map_of (zip ''ABCDEFGHIJKLMNOPQRSTUVWXYZ'' ''abcdefghijklmnopqrstuvwxyz'') c of
        None \<Rightarrow> c
      | Some l \<Rightarrow> l)"

definition lower :: "string \<Rightarrow> string" where
  "lower s = map lower_char s"

definition platform_ping_command :: "string \<Rightarrow> string \<Rightarrow> string list" where
  "platform_ping_command system_name ip =
     (if lower system_name = ''windows''
      then [''ping'', ''-n'', ''1'', ''-w'', ''1000'', ip]
      else [''ping'', ''-c'', ''1'', ''-W'', ''1'', ip])"

text \<open>
  \<^verbatim>\<open>subprocess.run\<close> either returns a completed process with its return code or raises
  (\<^verbatim>\<open>TimeoutExpired\<close> after \<^verbatim>\<open>PING_TIMEOUT_SEC + 1\<close> seconds, \<^verbatim>\<open>OSError\<close> when the
  command cannot be started, ...). What it does for a command is the parameter \<open>run\<close>.
\<close>

datatype run_result = Completed int | Raised exn

type_synonym runner = "string list \<Rightarrow> run_result"

text \<open>The \<^verbatim>\<open>try\<close> body first, then the two handlers in the order of the source.\<close>

definition ping_host :: "string \<Rightarrow> runner \<Rightarrow> string \<Rightarrow> exn + bool" where
  "ping_host system_name run ip =
     (case (case run (platform_ping_command system_name ip) of
              Completed returncode \<Rightarrow> Inr (returncode = 0)
            | Raised e \<Rightarrow> Inl e) of
        Inr b \<Rightarrow> Inr b
      | Inl TimeoutExpired \<Rightarrow> Inr False
      | Inl e \<Rightarrow> Inr False)"

section \<open>The scan coordinator: \<^verbatim>\<open>scan_network\<close>\<close>

text \<open>
  \<^verbatim>\<open>scan_network\<close> runs on the main thread next to the worker threads of a
  \<^verbatim>\<open>ThreadPoolExecutor(max_workers)\<close> and the signal handler \<^verbatim>\<open>handle_signal\<close>. The
  model is an interleaving of atomic events on this state:
  \<^item> \<open>phase\<close>: where the main thread is: building the dictionary of line 77
    (\<open>Submitting\<close>), in the \<^verbatim>\<open>as_completed\<close> loop of lines 78-88 (\<open>Collecting\<close>), leaving
    the \<^verbatim>\<open>with\<close> block, that is inside \<^verbatim>\<open>executor.shutdown(wait=True)\<close>
    (\<open>Exiting\<close>), or returned (\<open>Done\<close>);
  \<^item> \<open>todo\<close>: the addresses the comprehension has not submitted yet;
  \<^item> \<open>queue\<close>: the work items submitted and not yet taken by a worker;
  \<^item> \<open>running\<close>: the addresses whose \<^verbatim>\<open>ping_host\<close> call is in flight;
  \<^item> \<open>finished\<close>: the futures that are done and that the loop has not been given yet;
  \<^item> \<open>active\<close>: the list of line 74;
  \<^item> \<open>shutdown_requested\<close>: the global flag of line 27;
  \<^item> \<open>started\<close>: the log of the probes started so far, in order.
\<close>

datatype phase = Submitting | Collecting | Exiting | Done

record pool =
  phase :: phase
  todo :: "string list"
  queue :: "string list"
  running :: "string list"
  finished :: "string list"
  active :: "string list"
  shutdown_requested :: bool
  started :: "string list"

datatype event =
    Submit
  | As_Completed
  | Worker_Start
  | Worker_Finish string
  | Signal
  | Next_Future string
  | Loop_End
  | Pool_Exit

type_synonym probe = "string \<Rightarrow> exn + bool"

definition pool_init :: "string list \<Rightarrow> pool" where
  "pool_init addrs =
     \<lparr>phase = Submitting, todo = addrs, queue = [], running = [], finished = [],
      active = [], shutdown_requested = False, started = []\<rparr>"

text \<open>
  One event; \<open>None\<close> when it cannot happen in the state.
  \<^item> \<open>Submit\<close>: \<^verbatim>\<open>executor.submit(ping_host, str(ip))\<close> for the next address (line 77).
  \<^item> \<open>As_Completed\<close>: the dictionary is complete, the loop of line 78 begins.
  \<^item> \<open>Worker_Start\<close>: a worker thread takes the oldest work item and calls the probe. The
    executor has at most \<open>max_workers\<close> threads and a thread runs one item at a time.
  \<^item> \<open>Worker_Finish ip\<close>: the probe of \<open>ip\<close> returns or raises; its future is done.
  \<^item> \<open>Signal\<close>: SIGINT or SIGTERM arrives and \<^verbatim>\<open>handle_signal\<close> sets the flag.
  \<^item> \<open>Next_Future ip\<close>: \<^verbatim>\<open>as_completed\<close> yields the done future of \<open>ip\<close> and the loop
    body runs: \<^verbatim>\<open>break\<close> when the flag is set (line 79), otherwise
    \<^verbatim>\<open>future.result()\<close> inside \<^verbatim>\<open>try\<close>, which appends the address when the result is
    true and goes on when it is false or an exception.
  \<^item> \<open>Loop_End\<close>: every future has been yielded; the loop ends.
  \<^item> \<open>Pool_Exit\<close>: \<^verbatim>\<open>shutdown(wait=True)\<close> returns, which it does once the workers have
    run every item still queued, and \<^verbatim>\<open>scan_network\<close> returns \<^verbatim>\<open>active\<close>.
\<close>

fun step :: "nat \<Rightarrow> probe \<Rightarrow> event \<Rightarrow> pool \<Rightarrow> pool option" where
  "step mw pr Submit s =
     (case todo s of
        [] \<Rightarrow> None
      | ip # rest \<Rightarrow>
          if phase s = Submitting then Some (s\<lparr>todo := rest, queue := queue s @ [ip]\<rparr>)
          else None)"
| "step mw pr As_Completed s =
     (if phase s = Submitting \<and> todo s = [] then Some (s\<lparr>phase := Collecting\<rparr>) else None)"
| "step mw pr Worker_Start s =
     (case queue s of
        [] \<Rightarrow> None
      | ip # rest \<Rightarrow>
          if length (running s) < mw
          then Some (s\<lparr>queue := rest, running := running s @ [ip], started := started s @ [ip]\<rparr>)
          else None)"
| "step mw pr (Worker_Finish ip) s =
     (if ip \<in> set (running s)
      then Some (s\<lparr>running := remove1 ip (running s), finished := finished s @ [ip]\<rparr>)
      else None)"
| "step mw pr Signal s =
     (if phase s = Done then None else Some (s\<lparr>shutdown_requested := True\<rparr>))"
| "step mw pr (Next_Future ip) s =
     (if phase s = Collecting \<and> ip \<in> set (finished s)
      then if shutdown_requested s
           then Some (s\<lparr>phase := Exiting, finished := remove1 ip (finished s)\<rparr>)
           else Some (s\<lparr>finished := remove1 ip (finished s),
                       active := (case pr ip of
                                    Inr True \<Rightarrow> active s @ [ip]
                                  | Inr False \<Rightarrow> active s
                                  | Inl e \<Rightarrow> active s)\<rparr>)
      else None)"
| "step mw pr Loop_End s =
     (if phase s = Collecting \<and> queue s = [] \<and> running s = [] \<and> finished s = []
      then Some (s\<lparr>phase := Exiting\<rparr>) else None)"
| "step mw pr Pool_Exit s =
     (if phase s = Exiting \<and> queue s = [] \<and> running s = []
      then Some (s\<lparr>phase := Done\<rparr>) else None)"

text \<open>An event that cannot happen leaves the state as it is.\<close>

definition fire :: "nat \<Rightarrow> probe \<Rightarrow> event \<Rightarrow> pool \<Rightarrow> pool" where
  "fire mw pr e s = (case step mw pr e s of None \<Rightarrow> s | Some s' \<Rightarrow> s')"

fun execute :: "nat \<Rightarrow> probe \<Rightarrow> event list \<Rightarrow> pool \<Rightarrow> pool" where
  "execute mw pr [] s = s"
| "execute mw pr (e # es) s = execute mw pr es (fire mw pr e s)"

text \<open>
  After the events of a schedule the run is completed in a fixed order: the main thread
  moves when it can, otherwise the oldest probe in flight finishes, otherwise a worker
  starts the next item. No signal arrives any more.
\<close>

definition default_event :: "pool \<Rightarrow> event option" where
  "default_event s =
     (case phase s of
        Done \<Rightarrow> None
      | Submitting \<Rightarrow> Some (if todo s = [] then As_Completed else Submit)
      | Collecting \<Rightarrow>
          if finished s \<noteq> [] then Some (Next_Future (hd (finished s)))
          else if running s \<noteq> [] then Some (Worker_Finish (hd (running s)))
          else if queue s \<noteq> [] then Some Worker_Start
          else Some Loop_End
      | Exiting \<Rightarrow>
          if running s \<noteq> [] then Some (Worker_Finish (hd (running s)))
          else if queue s \<noteq> [] then Some Worker_Start
          else Some Pool_Exit)"

definition next_state :: "nat \<Rightarrow> probe \<Rightarrow> pool \<Rightarrow> pool option" where
  "next_state mw pr s =
     (case default_event s of None \<Rightarrow> None | Some e \<Rightarrow> step mw pr e s)"

fun phase_weight :: "phase \<Rightarrow> nat" where
  "phase_weight Submitting = 3"
| "phase_weight Collecting = 2"
| "phase_weight Exiting = 1"
| "phase_weight Done = 0"

definition weight :: "pool \<Rightarrow> nat" where
  "weight s = 5 * length (todo s) + 4 * length (queue s) + 3 * length (running s) +
              2 * length (finished s) + phase_weight (phase s)"

text \<open>\<open>None\<close>: the run is stuck before \<open>Done\<close>, the call never returns.\<close>

function drain :: "nat \<Rightarrow> probe \<Rightarrow> pool \<Rightarrow> pool option" where
  "drain mw pr s =
     (if phase s = Done then Some s
      else case next_state mw pr s of None \<Rightarrow> None | Some s' \<Rightarrow> drain mw pr s')"
  by pat_completeness auto
termination
proof (relation "measure (\<lambda>(mw, pr, s). weight s)")
  show "wf (measure (\<lambda>(mw, pr, s). weight s))" by simp
next
  fix mw :: nat and pr :: probe and s s' :: pool
  assume "phase s \<noteq> Done" and n: "next_state mw pr s = Some s'"
  from n have "weight s' < weight s"
    by (cases "phase s")
       (auto simp: next_state_def default_event_def weight_def length_remove1 neq_Nil_conv
             split: if_splits list.splits)
  then show "((mw, pr, s'), (mw, pr, s)) \<in> measure (\<lambda>(mw, pr, s). weight s)" by simp
qed

declare drain.simps [simp del]

text \<open>
  The scan of a list of addresses with a probe under a schedule: the events of the
  schedule, then the completion.
\<close>

definition scan_addresses :: "nat \<Rightarrow> probe \<Rightarrow> event list \<Rightarrow> string list \<Rightarrow> pool option" where
  "scan_addresses mw pr sched addrs = drain mw pr (execute mw pr sched (pool_init addrs))"

text \<open>
  \<^verbatim>\<open>scan_network\<close>: the network is parsed first (\<^verbatim>\<open>ValueError\<close> is raised again with the
  message of line 72); \<^verbatim>\<open>ThreadPoolExecutor\<close> raises \<^verbatim>\<open>ValueError\<close> for a worker count
  that is not positive; then the addresses \<^verbatim>\<open>str(ip) for ip in net.hosts()\<close> are scanned
  with \<^verbatim>\<open>ping_host\<close>. \<open>scan_pool\<close> keeps the final state, \<open>scan_network\<close> is what the
  source returns.
\<close>

definition scan_pool ::
  "parser \<Rightarrow> string \<Rightarrow> runner \<Rightarrow> event list \<Rightarrow> string \<Rightarrow> int \<Rightarrow> (exn + pool) option" where
  "scan_pool parse system_name run sched network_cidr max_workers =
     (case ip_network parse network_cidr of
        Inl e \<Rightarrow> Some (Inl (ValueError ''Invalid network format. Use e.g. 192.168.1.0/24''))
      | Inr net \<Rightarrow>
          if max_workers \<le> 0
          then Some (Inl (ValueError ''max_workers must be greater than 0''))
          else (case scan_addresses (nat max_workers) (ping_host system_name run) sched
                       (map str_ip (hosts net)) of
                  None \<Rightarrow> None
                | Some s \<Rightarrow> Some (Inr s)))"

definition scan_network ::
  "parser \<Rightarrow> string \<Rightarrow> runner \<Rightarrow> event list \<Rightarrow> string \<Rightarrow> int \<Rightarrow> (exn + string list) option" where
  "scan_network parse system_name run sched network_cidr max_workers =
     (case scan_pool parse system_name run sched network_cidr max_workers of
        None \<Rightarrow> None
      | Some (Inl e) \<Rightarrow> Some (Inl e)
      | Some (Inr s) \<Rightarrow> Some (Inr (active s)))"

text \<open>
  Two abbreviations for the statements below: the futures the loop has not been given yet,
  and, while no signal has arrived, the account of the reachable addresses: those already
  in \<open>active\<close> and those still to come are the reachable ones among all addresses \<open>A\<close>.
\<close>

definition pending :: "pool \<Rightarrow> string multiset" where
  "pending s = mset (todo s) + mset (queue s) + mset (running s) + mset (finished s)"

definition collected :: "probe \<Rightarrow> string multiset \<Rightarrow> pool \<Rightarrow> bool" where
  "collected pr A s \<longleftrightarrow>
     (shutdown_requested s \<or>
      (mset (active s) + filter_mset (\<lambda>ip. pr ip = Inr True) (pending s) =
         filter_mset (\<lambda>ip. pr ip = Inr True) A \<and>
       (phase s = Exiting \<or> phase s = Done \<longrightarrow> pending s = {#}) \<and>
       (phase s \<noteq> Submitting \<longrightarrow> todo s = [])))"

text \<open>A state in which the main thread has left the executor has nothing left to run.\<close>

definition settled :: "pool \<Rightarrow> bool" where
  "settled s \<longleftrightarrow>
     (phase s \<noteq> Submitting \<longrightarrow> todo s = []) \<and>
     (phase s = Done \<longrightarrow> queue s = [] \<and> running s = [])"

section \<open>Saving: \<^verbatim>\<open>save_results_securely\<close>\<close>

text \<open>
  The file system maps a path to the permission bits and the text of the file there.
  \<^verbatim>\<open>os.open(filename, O_WRONLY | O_CREAT | O_TRUNC, mode)\<close> creates a missing file with
  the mode given and truncates an existing one, whose permission bits stay.
\<close>

record osfile =
  fmode :: nat
  fdata :: string

type_synonym fs = "string \<Rightarrow> osfile option"

definition SAVE_FILE_MODE :: nat where
  "SAVE_FILE_MODE = 6 * 64"

definition os_open :: "fs \<Rightarrow> string \<Rightarrow> nat \<Rightarrow> fs" where
  "os_open files filename mode =
     (case files filename of
        None \<Rightarrow> files(filename \<mapsto> \<lparr>fmode = mode, fdata = []\<rparr>)
      | Some f \<Rightarrow> files(filename \<mapsto> f\<lparr>fdata := []\<rparr>))"

definition append_data :: "fs \<Rightarrow> string \<Rightarrow> string \<Rightarrow> fs" where
  "append_data files filename txt =
     (case files filename of
        None \<Rightarrow> files
      | Some f \<Rightarrow> files(filename \<mapsto> f\<lparr>fdata := fdata f @ txt\<rparr>))"

text \<open>
  What the operating system answers during one call:
  \<^item> \<open>utc_stamp\<close>: \<^verbatim>\<open>datetime.utcnow().strftime("%Y%m%dT%H%M%SZ")\<close> of line 96;
  \<^item> \<open>utc_iso\<close>: \<^verbatim>\<open>datetime.utcnow().isoformat()\<close> of line 105;
  \<^item> \<open>tempdir\<close>: \<^verbatim>\<open>tempfile.gettempdir()\<close>; \<open>path_join\<close>: \<^verbatim>\<open>os.path.join\<close>;
  \<^item> \<open>open_error\<close>: the message of the \<^verbatim>\<open>OSError\<close> that \<^verbatim>\<open>os.open\<close> raises, if any;
  \<^item> \<open>write_error\<close>: \<open>Some (k, m)\<close> when the block of lines 103-106 raises
    \<^verbatim>\<open>OSError(m)\<close> after \<open>k\<close> of its three writes have reached the file;
  \<^item> \<open>remove_error\<close>: the message of the \<^verbatim>\<open>OSError\<close> that \<^verbatim>\<open>os.remove\<close> raises, if any.
\<close>

record os_env =
  utc_stamp :: string
  utc_iso :: string
  tempdir :: string
  path_join :: "string \<Rightarrow> string \<Rightarrow> string"
  open_error :: "string option"
  write_error :: "(nat \<times> string) option"
  remove_error :: "string option"

definition default_filename :: "os_env \<Rightarrow> string" where
  "default_filename os = path_join os (tempdir os) (''scan_'' @ utc_stamp os @ ''.txt'')"

text \<open>The three arguments of \<^verbatim>\<open>f.write\<close>, lines 104-106.\<close>

definition chunks :: "os_env \<Rightarrow> string list \<Rightarrow> string list" where
  "chunks os hs =
     [''Scan results - host discovery'' @ [CHR 0x0A],
      ''Timestamp (UTC): '' @ utc_iso os @ ''Z'' @ [CHR 0x0A],
      join [CHR 0x0A] hs @ (if hs \<noteq> [] then [CHR 0x0A] else [])]"

text \<open>
  \<^verbatim>\<open>if not filename\<close> holds for \<^verbatim>\<open>None\<close> and for the empty string. \<^verbatim>\<open>os.open\<close> is
  outside the \<^verbatim>\<open>try\<close>; a failure inside removes the file, ignores a failure of the
  removal, and raises the first exception again.
\<close>

definition chosen_filename :: "os_env \<Rightarrow> string option \<Rightarrow> string" where
  "chosen_filename os filename =
     (case filename of
        None \<Rightarrow> default_filename os
      | Some f \<Rightarrow> if f = [] then default_filename os else f)"

definition save_results_securely ::
  "os_env \<Rightarrow> string list \<Rightarrow> string option \<Rightarrow> fs \<Rightarrow> (exn + string) \<times> fs" where
  "save_results_securely os hs filename files =
     (let fname = chosen_filename os filename
      in case open_error os of
           Some m \<Rightarrow> (Inl (OSError m), files)
         | None \<Rightarrow>
             (let files1 = os_open files fname SAVE_FILE_MODE
              in case write_error os of
                   None \<Rightarrow> (Inr fname, append_data files1 fname (concat (chunks os hs)))
                 | Some (k, m) \<Rightarrow>
                     (let files2 = append_data files1 fname (concat (take k (chunks os hs)));
                          files3 = (case remove_error os of
                                      None \<Rightarrow> files2(fname := None)
                                    | Some m' \<Rightarrow> files2)
                      in (Inl (OSError m), files3))))"

text \<open>
  For the examples: \<^verbatim>\<open>posixpath.join\<close> of two components, and an operating system in
  which nothing fails.
\<close>

definition posix_join :: "string \<Rightarrow> string \<Rightarrow> string" where
  "posix_join a b =
     (if b \<noteq> [] \<and> hd b = CHR ''/'' then b
      else if a = [] \<or> last a = CHR ''/'' then a @ b
      else a @ ''/'' @ b)"

definition sample_os :: os_env where
  "sample_os =
     \<lparr>utc_stamp = ''20240101T120000Z'', utc_iso = ''2024-01-01T12:00:00.000000'',
      tempdir = ''/tmp'', path_join = posix_join,
      open_error = None, write_error = None, remove_error = None\<rparr>"

section \<open>The command: \<^verbatim>\<open>main\<close>\<close>

record args =
  network :: string
  confirm_legal :: bool
  save :: bool
  max_workers :: int

text \<open>
  What a run of the process leaves behind: the exit status, the probes that were started
  and the file system. Returning from \<^verbatim>\<open>main\<close> is exit status 0.
\<close>

record outcome =
  exit_status :: nat
  probes :: "string list"
  files_after :: fs

definition exit_for :: "exn \<Rightarrow> nat" where
  "exit_for e = (if is_ValueError e then 2 else 1)"

definition main ::
  "parser \<Rightarrow> string \<Rightarrow> runner \<Rightarrow> event list \<Rightarrow> os_env \<Rightarrow> fs \<Rightarrow> args \<Rightarrow> outcome option" where
  "main parse system_name run sched os files a =
     (if \<not> confirm_legal a
      then Some \<lparr>exit_status = 2, probes = [], files_after = files\<rparr>
      else if max_workers a < 1 \<or> max_workers a > 200
      then Some \<lparr>exit_status = 2, probes = [], files_after = files\<rparr>
      else (case scan_pool parse system_name run sched (network a) (max_workers a) of
              None \<Rightarrow> None
            | Some (Inl e) \<Rightarrow>
                Some \<lparr>exit_status = exit_for e, probes = [], files_after = files\<rparr>
            | Some (Inr s) \<Rightarrow>
                if save a
                then (case save_results_securely os (active s) None files of
                        (Inl e, files') \<Rightarrow>
                          Some \<lparr>exit_status = exit_for e, probes = started s,
                                files_after = files'\<rparr>
                      | (Inr path, files') \<Rightarrow>
                          Some \<lparr>exit_status = 0, probes = started s, files_after = files'\<rparr>)
                else Some \<lparr>exit_status = 0, probes = started s, files_after = files\<rparr>))"

section \<open>Facts about the enumerator\<close>

lemma all_ones_mask: "ALL_ONES = mask 32"
  by (simp add: ALL_ONES_def mask_eq_exp_minus_1)

lemma hostmask_eq: "p \<le> 32 \<Longrightarrow> ip_int_from_prefix p XOR ALL_ONES = mask (32 - p)"
  unfolding ip_int_from_prefix_def all_ones_mask
  by (rule bit_eqI) (auto simp: bit_simps)

lemma and_netmask:
  assumes a: "a < 2 ^ 32" and p: "p \<le> 32"
  shows "a AND ip_int_from_prefix p = push_bit (32 - p) (drop_bit (32 - p) a)"
proof -
  have ta: "take_bit 32 a = a"
    using a by (simp add: take_bit_nat_eq_self)
  have "take_bit 32 a AND ip_int_from_prefix p =
        push_bit (32 - p) (drop_bit (32 - p) (take_bit 32 a))"
    unfolding ip_int_from_prefix_def all_ones_mask using p
    by (intro bit_eqI) (auto simp: bit_simps)
  then show ?thesis by (simp add: ta)
qed

lemma or_hostmask: "push_bit h k OR mask h = push_bit h k + (2 ^ h - 1 :: nat)"
proof -
  have "push_bit h k + mask h = push_bit h k OR (mask h :: nat)"
    by (rule disjunctive_add) (auto simp: bit_simps)
  then show ?thesis by (simp add: mask_eq_exp_minus_1)
qed

text \<open>The network address is the address rounded down to a multiple of the block size,
  and the broadcast address is the last address of the block.\<close>

lemma ip_network_ok:
  assumes "parse txt = Some (a, p)" "a < 2 ^ 32" "p \<le> 32"
  shows "ip_network parse txt =
           Inr \<lparr>network_address = a div 2 ^ (32 - p) * 2 ^ (32 - p), prefixlen = p\<rparr>"
  using assms by (simp add: ip_network_def and_netmask push_bit_eq_mult drop_bit_eq_div)

lemma broadcast_block:
  assumes "p \<le> 32"
  shows "broadcast_address \<lparr>network_address = k * 2 ^ (32 - p), prefixlen = p\<rparr> =
           k * 2 ^ (32 - p) + (2 ^ (32 - p) - 1)"
proof -
  have "k * 2 ^ (32 - p) = push_bit (32 - p) k"
    by (simp add: push_bit_eq_mult)
  then show ?thesis
    using assms by (simp add: broadcast_address_def hostmask_def netmask_def hostmask_eq or_hostmask)
qed

subsection \<open>Dotted decimal is injective\<close>

lemma str_nat_nonempty: "str_nat n \<noteq> []"
  by (subst str_nat.simps) simp

lemma lt10_cases: "d < (10::nat) \<Longrightarrow> d \<in> {0, 1, 2, 3, 4, 5, 6, 7, 8, 9}"
  by auto

lemma digit_inj: "a < 10 \<Longrightarrow> b < 10 \<Longrightarrow> digit a = digit b \<Longrightarrow> a = b"
  by (drule lt10_cases, drule lt10_cases) (auto simp: digit_def)

lemma digit_not_dot: "d < 10 \<Longrightarrow> digit d \<noteq> CHR ''.''"
  by (drule lt10_cases) (auto simp: digit_def)

lemma str_nat_no_dot: "CHR ''.'' \<notin> set (str_nat n)"
proof (induction n rule: str_nat.induct)
  case (1 n)
  show ?case
  proof (cases "n < 10")
    case True
    then show ?thesis by (subst str_nat.simps) (simp add: digit_not_dot [symmetric])
  next
    case False
    have "n mod 10 < 10" by simp
    then have "digit (n mod 10) \<noteq> CHR ''.''" by (rule digit_not_dot)
    with False 1 show ?thesis by (subst str_nat.simps) auto
  qed
qed

lemma str_nat_inj: "str_nat n = str_nat m \<Longrightarrow> n = m"
proof (induction n arbitrary: m rule: str_nat.induct)
  case (1 n)
  show ?case
  proof (cases "n < 10")
    case n: True
    show ?thesis
    proof (cases "m < 10")
      case True
      with n 1(2) show ?thesis
        by (simp add: str_nat.simps [of n] str_nat.simps [of m] digit_inj)
    next
      case False
      with n 1(2) show ?thesis
        using str_nat_nonempty [of "m div 10"]
        by (simp add: str_nat.simps [of n] str_nat.simps [of m])
    qed
  next
    case n: False
    show ?thesis
    proof (cases "m < 10")
      case True
      with n 1(2) show ?thesis
        using str_nat_nonempty [of "n div 10"]
        by (simp add: str_nat.simps [of n] str_nat.simps [of m])
    next
      case False
      with n 1(2) have e: "str_nat (n div 10) = str_nat (m div 10)"
        and d: "digit (n mod 10) = digit (m mod 10)"
        by (simp_all add: str_nat.simps [of n] str_nat.simps [of m])
      from 1(1) [OF n e] have "n div 10 = m div 10" .
      moreover from d have "n mod 10 = m mod 10" by (intro digit_inj) simp_all
      ultimately show ?thesis by (metis div_mult_mod_eq)
    qed
  qed
qed

lemma bytes_step:
  fixes a b :: nat
  assumes "a div k = b div k" "a mod k = b mod k"
  shows "a = b"
  using assms by (metis div_mult_mod_eq)

lemma to_bytes4_inj:
  assumes "a < 2 ^ 32" "b < 2 ^ 32" "to_bytes4 a = to_bytes4 b"
  shows "a = b"
proof -
  from assms(3) have e3: "a div 16777216 mod 256 = b div 16777216 mod 256"
    and e2: "a div 65536 mod 256 = b div 65536 mod 256"
    and e1: "a div 256 mod 256 = b div 256 mod 256" and e0: "a mod 256 = b mod 256"
    by (simp_all add: to_bytes4_def)
  have d: "a div 16777216 div 256 = b div 16777216 div 256"
    using assms(1,2) by (simp add: div_mult2_eq [symmetric])
  have "a div 16777216 = b div 16777216"
    using d e3 by (rule bytes_step)
  then have "a div 65536 div 256 = b div 65536 div 256"
    by (simp add: div_mult2_eq [symmetric])
  then have "a div 65536 = b div 65536"
    using e2 by (rule bytes_step)
  then have "a div 256 div 256 = b div 256 div 256"
    by (simp add: div_mult2_eq [symmetric])
  then have "a div 256 = b div 256"
    using e1 by (rule bytes_step)
  then show ?thesis using e0 by (rule bytes_step)
qed

lemma sep_split:
  "x @ c # r = y @ c # s \<Longrightarrow> c \<notin> set x \<Longrightarrow> c \<notin> set y \<Longrightarrow> x = y \<and> r = s"
proof (induction x arbitrary: y)
  case Nil
  then show ?case by (cases y) auto
next
  case (Cons a x)
  then show ?case by (cases y) auto
qed

lemma dot_split:
  assumes "x @ CHR ''.'' # r = y @ CHR ''.'' # s" "CHR ''.'' \<notin> set x" "CHR ''.'' \<notin> set y"
  shows "x = y \<and> r = s"
  using assms by (rule sep_split)

lemma str_ip_inj:
  assumes "a < 2 ^ 32" "b < 2 ^ 32" "str_ip a = str_ip b"
  shows "a = b"
proof -
  let ?a3 = "a div 2 ^ 24 mod 256" and ?a2 = "a div 2 ^ 16 mod 256" and ?a1 = "a div 2 ^ 8 mod 256"
  let ?b3 = "b div 2 ^ 24 mod 256" and ?b2 = "b div 2 ^ 16 mod 256" and ?b1 = "b div 2 ^ 8 mod 256"
  from assms(3) have "str_nat ?a3 @ CHR ''.'' # (str_nat ?a2 @ CHR ''.'' # (str_nat ?a1 @ CHR ''.'' # str_nat (a mod 256)))
     = str_nat ?b3 @ CHR ''.'' # (str_nat ?b2 @ CHR ''.'' # (str_nat ?b1 @ CHR ''.'' # str_nat (b mod 256)))"
    by (simp add: str_ip_def to_bytes4_def)
  from dot_split [OF this str_nat_no_dot str_nat_no_dot]
  have s3: "str_nat ?a3 = str_nat ?b3"
    and r3: "str_nat ?a2 @ CHR ''.'' # (str_nat ?a1 @ CHR ''.'' # str_nat (a mod 256))
     = str_nat ?b2 @ CHR ''.'' # (str_nat ?b1 @ CHR ''.'' # str_nat (b mod 256))"
    by simp_all
  from dot_split [OF r3 str_nat_no_dot str_nat_no_dot]
  have s2: "str_nat ?a2 = str_nat ?b2"
    and r2: "str_nat ?a1 @ CHR ''.'' # str_nat (a mod 256) = str_nat ?b1 @ CHR ''.'' # str_nat (b mod 256)"
    by simp_all
  from dot_split [OF r2 str_nat_no_dot str_nat_no_dot]
  have s1: "str_nat ?a1 = str_nat ?b1" and s0: "str_nat (a mod 256) = str_nat (b mod 256)"
    by simp_all
  have "to_bytes4 a = to_bytes4 b"
    using str_nat_inj [OF s3] str_nat_inj [OF s2] str_nat_inj [OF s1] str_nat_inj [OF s0]
    by (simp add: to_bytes4_def)
  with assms(1,2) show ?thesis by (rule to_bytes4_inj)
qed


subsection \<open>The enumeration of a block\<close>

lemma hosts_block:
  assumes "p \<le> 30"
  shows "hosts \<lparr>network_address = k * 2 ^ (32 - p), prefixlen = p\<rparr> =
           [k * 2 ^ (32 - p) + 1 ..< k * 2 ^ (32 - p) + (2 ^ (32 - p) - 1)]"
  using assms by (simp add: hosts_def broadcast_block)

text \<open>
  Claim C3. For every valid IPv4 network text with a prefix length of at most 30 the
  enumeration has exactly \<open>2 ^ (32 - prefix) - 2\<close> addresses, in strictly ascending
  order; they are the addresses strictly between the network address and the broadcast
  address, so neither of the two is among them.
\<close>

theorem hosts_count_order:
  assumes "parse txt = Some (a, p)" "a < 2 ^ 32" "p \<le> 30"
  shows "\<exists>net. ip_network parse txt = Inr net \<and>
           length (hosts net) = 2 ^ (32 - p) - 2 \<and>
           sorted_wrt (<) (hosts net) \<and>
           set (hosts net) = {network_address net <..< broadcast_address net} \<and>
           network_address net \<notin> set (hosts net) \<and>
           broadcast_address net \<notin> set (hosts net) \<and>
           network_address net \<le> a \<and> a \<le> broadcast_address net"
proof -
  let ?h = "32 - p"
  let ?net = "\<lparr>network_address = a div 2 ^ ?h * 2 ^ ?h, prefixlen = p\<rparr>"
  from assms have p32: "p \<le> 32" by simp
  have net: "ip_network parse txt = Inr ?net"
    using assms(1,2) p32 by (rule ip_network_ok)
  have b: "broadcast_address ?net = a div 2 ^ ?h * 2 ^ ?h + (2 ^ ?h - 1)"
    using p32 by (rule broadcast_block)
  have h: "hosts ?net = [a div 2 ^ ?h * 2 ^ ?h + 1 ..< a div 2 ^ ?h * 2 ^ ?h + (2 ^ ?h - 1)]"
    using assms(3) by (rule hosts_block)
  have lo: "a div 2 ^ ?h * 2 ^ ?h \<le> a" by simp
  have "a mod 2 ^ ?h < 2 ^ ?h" by simp
  then have "a mod 2 ^ ?h \<le> 2 ^ ?h - 1" by linarith
  then have hi: "a \<le> a div 2 ^ ?h * 2 ^ ?h + (2 ^ ?h - 1)"
    using div_mult_mod_eq [of a "2 ^ ?h"] by linarith
  have "length (hosts ?net) = 2 ^ ?h - 2" by (simp add: h)
  moreover have "sorted_wrt (<) (hosts ?net)" by (simp add: h)
  moreover have "set (hosts ?net) = {network_address ?net <..< broadcast_address ?net}"
    by (auto simp: h b)
  moreover have "network_address ?net \<notin> set (hosts ?net)" by (simp add: h)
  moreover have "broadcast_address ?net \<notin> set (hosts ?net)" by (simp add: h b)
  moreover have "network_address ?net \<le> a \<and> a \<le> broadcast_address ?net"
    using lo hi by (simp add: b)
  ultimately show ?thesis using net by blast
qed

lemma sample_net:
  "ip_network sample_parse ''192.168.1.0/30'' =
     Inr \<lparr>network_address = 3232235776, prefixlen = 30\<rparr>"
  using ip_network_ok [of sample_parse "''192.168.1.0/30''" 3232235776 30]
  by (simp add: sample_parse_def)

lemma sample_hosts:
  "map str_ip (hosts \<lparr>network_address = 3232235776, prefixlen = 30\<rparr>) =
     [''192.168.1.1'', ''192.168.1.2'']"
  using hosts_block [of 30 808058944]
  by (simp add: str_ip_def to_bytes4_def str_nat.simps digit_def)

theorem hosts_count_order_witness:
  "sample_parse ''192.168.1.0/30'' = Some (3232235776, 30) \<and>
   (3232235776::nat) < 2 ^ 32 \<and> (30::nat) \<le> 30 \<and>
   (\<exists>net. ip_network sample_parse ''192.168.1.0/30'' = Inr net \<and>
      length (hosts net) = 2 \<and> sorted_wrt (<) (hosts net) \<and>
      map str_ip (hosts net) = [''192.168.1.1'', ''192.168.1.2''])"
proof -
  have p: "sample_parse ''192.168.1.0/30'' = Some (3232235776, 30)"
    by (simp add: sample_parse_def)
  have a: "(3232235776::nat) < 2 ^ 32" by simp
  have l: "(30::nat) \<le> 30" by simp
  from hosts_count_order [of sample_parse "''192.168.1.0/30''" 3232235776 30] p a l
  obtain net where n: "ip_network sample_parse ''192.168.1.0/30'' = Inr net"
    and len: "length (hosts net) = 2 ^ (32 - 30) - 2" and srt: "sorted_wrt (<) (hosts net)"
    by blast
  from n sample_net have "net = \<lparr>network_address = 3232235776, prefixlen = 30\<rparr>" by simp
  then have "map str_ip (hosts net) = [''192.168.1.1'', ''192.168.1.2'']"
    by (simp only: sample_hosts)
  then show ?thesis using p a n len srt by simp
qed

section \<open>Facts about the pool\<close>

lemma execute_append: "execute mw pr (xs @ ys) s = execute mw pr ys (execute mw pr xs s)"
  by (induction xs arbitrary: s) simp_all

lemma step_running:
  "step mw pr e s = Some s' \<Longrightarrow> length (running s) \<le> mw \<Longrightarrow> length (running s') \<le> mw"
  by (cases e) (auto simp: length_remove1 split: if_splits list.splits)

lemma step_pending:
  "step mw pr e s = Some s' \<Longrightarrow> mset (active s') + pending s' \<subseteq># mset (active s) + pending s"
  by (cases e) (auto simp: pending_def split: if_splits list.splits sum.splits bool.splits)

lemma step_active_reachable:
  "step mw pr e s = Some s' \<Longrightarrow> \<forall>ip\<in>set (active s). pr ip = Inr True \<Longrightarrow>
     \<forall>ip\<in>set (active s'). pr ip = Inr True"
  by (cases e) (auto split: if_splits list.splits sum.splits bool.splits)

lemma step_started:
  "step mw pr e s = Some s' \<Longrightarrow>
     mset (started s') + mset (todo s') + mset (queue s') =
     mset (started s) + mset (todo s) + mset (queue s)"
  by (cases e) (auto split: if_splits list.splits sum.splits bool.splits)

lemma step_flag:
  "step mw pr e s = Some s' \<Longrightarrow> e \<noteq> Signal \<Longrightarrow> shutdown_requested s' = shutdown_requested s"
  by (cases e) (auto split: if_splits list.splits)

lemma step_flag_mono:
  "step mw pr e s = Some s' \<Longrightarrow> shutdown_requested s \<Longrightarrow> shutdown_requested s'"
  by (cases e) (auto split: if_splits list.splits)

lemma step_pending_eq:
  "step mw pr e s = Some s' \<Longrightarrow>
     pending s = pending s' + (case e of Next_Future ip \<Rightarrow> {#ip#} | _ \<Rightarrow> {#})"
  by (cases e) (auto simp: pending_def split: if_splits list.splits)

lemma step_collected:
  assumes "step mw pr e s = Some s'" "collected pr A s"
  shows "collected pr A s'"
proof (cases "shutdown_requested s'")
  case True
  then show ?thesis by (simp add: collected_def)
next
  case False
  with assms(1) have ns: "\<not> shutdown_requested s"
    using step_flag_mono by blast
  with assms(2) have c: "mset (active s) + filter_mset (\<lambda>ip. pr ip = Inr True) (pending s) =
         filter_mset (\<lambda>ip. pr ip = Inr True) A"
    "phase s = Exiting \<or> phase s = Done \<longrightarrow> pending s = {#}"
    "phase s \<noteq> Submitting \<longrightarrow> todo s = []"
    by (simp_all add: collected_def)
  note p = step_pending_eq [OF assms(1)]
  show ?thesis
  proof (cases e)
    case (Next_Future ip)
    with assms(1) ns have s': "phase s = Collecting"
      "s' = s\<lparr>finished := remove1 ip (finished s),
              active := (case pr ip of Inr True \<Rightarrow> active s @ [ip]
                          | Inr False \<Rightarrow> active s | Inl e \<Rightarrow> active s)\<rparr>"
      by (auto split: if_splits)
    from p Next_Future have pe: "pending s = pending s' + {#ip#}" by simp
    have "mset (active s') + filter_mset (\<lambda>ip. pr ip = Inr True) (pending s') =
         filter_mset (\<lambda>ip. pr ip = Inr True) A"
      using c(1) unfolding pe by (simp add: s'(2) split: sum.splits bool.splits)
    moreover have "phase s' = Collecting" "todo s' = []"
      using s' c(3) by simp_all
    ultimately show ?thesis by (simp add: collected_def)
  next
    case Submit
    with assms(1) p c show ?thesis
      by (auto simp: collected_def split: if_splits list.splits)
  next
    case As_Completed
    with assms(1) p c show ?thesis
      by (auto simp: collected_def split: if_splits list.splits)
  next
    case Worker_Start
    with assms(1) p c show ?thesis
      by (auto simp: collected_def split: if_splits list.splits)
  next
    case (Worker_Finish ip)
    with assms(1) p c show ?thesis
      by (auto simp: collected_def split: if_splits list.splits)
  next
    case Signal
    with assms(1) False show ?thesis by (auto split: if_splits)
  next
    case Loop_End
    with assms(1) p c show ?thesis
      by (auto simp: collected_def pending_def split: if_splits list.splits)
  next
    case Pool_Exit
    with assms(1) p c show ?thesis
      by (auto simp: collected_def split: if_splits list.splits)
  qed
qed

lemma next_state_progress:
  assumes "0 < mw" "phase s \<noteq> Done"
  shows "\<exists>s'. next_state mw pr s = Some s'"
proof (cases "phase s")
  case Submitting
  then show ?thesis
    by (cases "todo s") (simp_all add: next_state_def default_event_def)
next
  case Collecting
  show ?thesis
  proof (cases "finished s = []")
    case False
    with Collecting show ?thesis by (simp add: next_state_def default_event_def)
  next
    case f: True
    show ?thesis
    proof (cases "running s = []")
      case False
      with Collecting f show ?thesis by (simp add: next_state_def default_event_def)
    next
      case True
      with Collecting f assms(1) show ?thesis
        by (cases "queue s") (simp_all add: next_state_def default_event_def)
    qed
  qed
next
  case Exiting
  show ?thesis
  proof (cases "running s = []")
    case False
    with Exiting show ?thesis by (simp add: next_state_def default_event_def)
  next
    case True
    with Exiting assms(1) show ?thesis
      by (cases "queue s") (simp_all add: next_state_def default_event_def)
  qed
next
  case Done
  with assms(2) show ?thesis by simp
qed

lemma default_event_not_signal: "default_event s \<noteq> Some Signal"
  by (cases "phase s") (simp_all add: default_event_def)

lemma next_state_fire:
  assumes "next_state mw pr s = Some s'"
  shows "\<exists>e. e \<noteq> Signal \<and> s' = fire mw pr e s"
proof -
  from assms obtain e where e: "default_event s = Some e" "step mw pr e s = Some s'"
    by (auto simp: next_state_def split: option.splits)
  from e(1) have "e \<noteq> Signal" using default_event_not_signal [of s] by auto
  moreover from e(2) have "s' = fire mw pr e s" by (simp add: fire_def)
  ultimately show ?thesis by blast
qed

lemma drain_total:
  shows "0 < mw \<Longrightarrow> \<exists>s' evs. drain mw pr s = Some s' \<and> phase s' = Done \<and>
           Signal \<notin> set evs \<and> s' = execute mw pr evs s"
proof (induction mw pr s rule: drain.induct)
  case (1 mw pr s)
  show ?case
  proof (cases "phase s = Done")
    case True
    then have "drain mw pr s = Some s" by (simp add: drain.simps)
    moreover have "Signal \<notin> set []" "s = execute mw pr [] s" by simp_all
    ultimately show ?thesis using True by blast
  next
    case False
    with 1(2) obtain s1 where s1: "next_state mw pr s = Some s1"
      using next_state_progress by blast
    from 1(1) [OF False s1 1(2)] obtain s' evs where
      d: "drain mw pr s1 = Some s'" "phase s' = Done" "Signal \<notin> set evs"
         "s' = execute mw pr evs s1"
      by blast
    from s1 obtain e where e: "e \<noteq> Signal" "s1 = fire mw pr e s"
      using next_state_fire by blast
    have "drain mw pr s = Some s'"
      using False s1 d(1) by (simp add: drain.simps [of mw pr s])
    moreover have "Signal \<notin> set (e # evs)" using e(1) d(3) by auto
    moreover have "s' = execute mw pr (e # evs) s" using d(4) e(2) by simp
    ultimately show ?thesis using d(2) by blast
  qed
qed

lemma drain_done: "phase s = Done \<Longrightarrow> drain mw pr s = Some s"
  by (simp add: drain.simps)

lemma execute_preserves:
  assumes "\<And>e s s'. step mw pr e s = Some s' \<Longrightarrow> P s \<Longrightarrow> P s'" "P s"
  shows "P (execute mw pr evs s)"
  using assms(2)
proof (induction evs arbitrary: s)
  case Nil
  then show ?case by simp
next
  case (Cons e evs)
  have "P (fire mw pr e s)"
    using Cons.prems assms(1) [of e s] by (simp add: fire_def split: option.splits)
  then show ?case by (simp add: Cons.IH)
qed

lemma execute_running:
  "length (running s) \<le> mw \<Longrightarrow> length (running (execute mw pr evs s)) \<le> mw"
  by (rule execute_preserves [where P = "\<lambda>s. length (running s) \<le> mw"])
     (simp_all add: step_running)

lemma scan_addresses_execute:
  assumes "0 < mw"
  shows "\<exists>s evs. scan_addresses mw pr sched addrs = Some s \<and> phase s = Done \<and>
           Signal \<notin> set evs \<and> s = execute mw pr (sched @ evs) (pool_init addrs)"
  using drain_total [OF assms, of pr "execute mw pr sched (pool_init addrs)"]
  by (auto simp: scan_addresses_def execute_append)

text \<open>
  Claim C1. Whatever the worker limit and the addresses, after any sequence of events
  (submissions, worker starts and finishes, signals, loop iterations) at most \<open>mw\<close>
  probes are in flight; and every scan with a positive limit is such a sequence of events:
  it returns, in the state that its schedule followed by some further events leads to.
\<close>

theorem in_flight_bound:
  "length (running (execute mw pr evs (pool_init addrs))) \<le> mw \<and>
   (0 < mw \<longrightarrow>
      (\<exists>s evs'. scan_addresses mw pr sched addrs = Some s \<and>
         s = execute mw pr (sched @ evs') (pool_init addrs)))"
proof
  show "length (running (execute mw pr evs (pool_init addrs))) \<le> mw"
    by (rule execute_running) (simp add: pool_init_def)
  show "0 < mw \<longrightarrow>
      (\<exists>s evs'. scan_addresses mw pr sched addrs = Some s \<and>
         s = execute mw pr (sched @ evs') (pool_init addrs))"
    using scan_addresses_execute [of mw pr sched addrs] by blast
qed

theorem in_flight_bound_witness:
  "running (execute 1 (\<lambda>ip. Inr True) [Submit, Submit, Worker_Start, Worker_Start]
      (pool_init [''10.0.0.1'', ''10.0.0.2''])) = [''10.0.0.1''] \<and>
   length (running (execute 1 (\<lambda>ip. Inr True) [Submit, Submit, Worker_Start, Worker_Start]
      (pool_init [''10.0.0.1'', ''10.0.0.2'']))) \<le> 1 \<and>
   (0::nat) < 1 \<and>
   (\<exists>s evs'. scan_addresses 1 (\<lambda>ip. Inr True) [] [''10.0.0.1'', ''10.0.0.2''] = Some s \<and>
      s = execute 1 (\<lambda>ip. Inr True) ([] @ evs') (pool_init [''10.0.0.1'', ''10.0.0.2'']))"
  using in_flight_bound [of 1 "\<lambda>ip. Inr True" "[Submit, Submit, Worker_Start, Worker_Start]"
      "[''10.0.0.1'', ''10.0.0.2'']" "[]"]
  by (simp add: pool_init_def fire_def)

lemma execute_pending:
  assumes "mset (active s) + pending s \<subseteq># M"
  shows "mset (active (execute mw pr evs s)) + pending (execute mw pr evs s) \<subseteq># M"
proof (rule execute_preserves [where P = "\<lambda>s. mset (active s) + pending s \<subseteq># M"])
  fix e s s'
  assume "step mw pr e s = Some s'" and "mset (active s) + pending s \<subseteq># M"
  then show "mset (active s') + pending s' \<subseteq># M"
    using step_pending [of mw pr e s s'] by (meson subset_mset.order_trans)
qed (rule assms)

lemma execute_active_reachable:
  "\<forall>ip\<in>set (active s). pr ip = Inr True \<Longrightarrow>
   \<forall>ip\<in>set (active (execute mw pr evs s)). pr ip = Inr True"
  by (rule execute_preserves [where P = "\<lambda>s. \<forall>ip\<in>set (active s). pr ip = Inr True"])
     (simp_all add: step_active_reachable)

lemma execute_started:
  assumes "mset (started s) + mset (todo s) + mset (queue s) = M"
  shows "mset (started (execute mw pr evs s)) + mset (todo (execute mw pr evs s)) +
     mset (queue (execute mw pr evs s)) = M"
proof (rule execute_preserves
    [where P = "\<lambda>s. mset (started s) + mset (todo s) + mset (queue s) = M"])
  fix e s s'
  assume "step mw pr e s = Some s'" and "mset (started s) + mset (todo s) + mset (queue s) = M"
  then show "mset (started s') + mset (todo s') + mset (queue s') = M"
    using step_started [of mw pr e s s'] by simp
qed (rule assms)

lemma execute_collected:
  "collected pr A s \<Longrightarrow> collected pr A (execute mw pr evs s)"
  by (rule execute_preserves [where P = "collected pr A"]) (simp_all add: step_collected)

lemma execute_flag:
  "Signal \<notin> set evs \<Longrightarrow>
   shutdown_requested (execute mw pr evs s) = shutdown_requested s"
proof (induction evs arbitrary: s)
  case Nil
  then show ?case by simp
next
  case (Cons e evs)
  then have e: "e \<noteq> Signal" by auto
  have "shutdown_requested (fire mw pr e s) = shutdown_requested s"
    using e by (auto simp: fire_def step_flag split: option.splits)
  with Cons show ?case by simp
qed

lemma step_settled: "step mw pr e s = Some s' \<Longrightarrow> settled s \<Longrightarrow> settled s'"
  by (cases e) (auto simp: settled_def split: if_splits list.splits)

lemma execute_settled: "settled s \<Longrightarrow> settled (execute mw pr evs s)"
  by (rule execute_preserves [where P = settled]) (simp_all add: step_settled)

lemma init_facts:
  "pending (pool_init addrs) = mset addrs" "active (pool_init addrs) = []"
  "settled (pool_init addrs)" "collected pr (mset addrs) (pool_init addrs)"
  "started (pool_init addrs) = []" "todo (pool_init addrs) = addrs" "queue (pool_init addrs) = []"
  by (simp_all add: pool_init_def pending_def settled_def collected_def)

lemma scan_addresses_sound:
  assumes "0 < mw"
  shows "\<exists>s. scan_addresses mw pr sched addrs = Some s \<and> phase s = Done \<and>
           mset (active s) \<subseteq># mset addrs \<and>
           (\<forall>ip\<in>set (active s). pr ip = Inr True) \<and>
           mset (started s) = mset addrs \<and>
           (Signal \<notin> set sched \<longrightarrow>
              mset (active s) = filter_mset (\<lambda>ip. pr ip = Inr True) (mset addrs))"
proof -
  from scan_addresses_execute [OF assms, of pr sched addrs]
  obtain s evs where s: "scan_addresses mw pr sched addrs = Some s" "phase s = Done"
    "Signal \<notin> set evs" "s = execute mw pr (sched @ evs) (pool_init addrs)"
    by blast
  have "mset (active s) + pending s \<subseteq># mset addrs"
    unfolding s(4) by (rule execute_pending) (simp add: init_facts)
  then have a: "mset (active s) \<subseteq># mset addrs"
    using mset_subset_eq_add_left [of "mset (active s)" "pending s"]
    by (meson subset_mset.order_trans)
  have b: "\<forall>ip\<in>set (active s). pr ip = Inr True"
    unfolding s(4) by (rule execute_active_reachable) (simp add: init_facts)
  have "settled s" unfolding s(4) by (rule execute_settled) (rule init_facts)
  with s(2) have e: "todo s = []" "queue s = []" by (simp_all add: settled_def)
  have "mset (started s) + mset (todo s) + mset (queue s) = mset addrs"
    unfolding s(4) by (rule execute_started) (simp add: init_facts)
  with e have c: "mset (started s) = mset addrs" by simp
  have d: "mset (active s) = filter_mset (\<lambda>ip. pr ip = Inr True) (mset addrs)"
    if "Signal \<notin> set sched"
  proof -
    from that s(3) have "Signal \<notin> set (sched @ evs)" by simp
    then have "\<not> shutdown_requested s"
      unfolding s(4) by (simp add: execute_flag pool_init_def)
    moreover have "collected pr (mset addrs) s"
      unfolding s(4) by (rule execute_collected) (rule init_facts)
    ultimately show ?thesis using s(2) by (auto simp: collected_def)
  qed
  from s(1,2) a b c d show ?thesis by blast
qed

text \<open>Every interleaving that ends with the return of the scan is the scan under that
  interleaving as its schedule: the completion adds nothing to it.\<close>

lemma scan_addresses_complete_schedule:
  "phase (execute mw pr evs (pool_init addrs)) = Done \<Longrightarrow>
   scan_addresses mw pr evs addrs = Some (execute mw pr evs (pool_init addrs))"
  by (simp add: scan_addresses_def drain_done)

text \<open>
  Claim C5. Two scans of the same addresses with the same probe stub, under any two
  schedules in which no signal arrives, both return, and their lists of active hosts hold
  the same addresses: exactly the addresses for which the stub answers true.
\<close>

theorem scan_idempotent:
  assumes "0 < mw" "Signal \<notin> set sched1" "Signal \<notin> set sched2"
  shows "\<exists>s1 s2. scan_addresses mw pr sched1 addrs = Some s1 \<and>
           scan_addresses mw pr sched2 addrs = Some s2 \<and>
           set (active s1) = set (active s2) \<and>
           mset (active s1) = mset (active s2) \<and>
           set (active s1) = {ip \<in> set addrs. pr ip = Inr True}"
proof -
  from scan_addresses_sound [OF assms(1), of pr sched1 addrs] assms(2)
  obtain s1 where s1: "scan_addresses mw pr sched1 addrs = Some s1"
    "mset (active s1) = filter_mset (\<lambda>ip. pr ip = Inr True) (mset addrs)"
    by blast
  from scan_addresses_sound [OF assms(1), of pr sched2 addrs] assms(3)
  obtain s2 where s2: "scan_addresses mw pr sched2 addrs = Some s2"
    "mset (active s2) = filter_mset (\<lambda>ip. pr ip = Inr True) (mset addrs)"
    by blast
  have m: "mset (active s1) = mset (active s2)" using s1(2) s2(2) by simp
  then have e: "set (active s1) = set (active s2)" by (rule mset_eq_setD)
  have "set_mset (mset (active s1)) = {ip \<in> set addrs. pr ip = Inr True}"
    unfolding s1(2) by auto
  then have "set (active s1) = {ip \<in> set addrs. pr ip = Inr True}" by simp
  with s1(1) s2(1) m e show ?thesis by blast
qed


theorem scan_idempotent_witness:
  "(0::nat) < 2 \<and>
   Signal \<notin> set [] \<and>
   Signal \<notin> set [Submit, Submit, As_Completed, Worker_Start, Worker_Start,
                  Worker_Finish ''10.0.0.2'', Worker_Finish ''10.0.0.1'',
                  Next_Future ''10.0.0.2'', Next_Future ''10.0.0.1''] \<and>
   (\<exists>s1 s2.
      scan_addresses 2 (\<lambda>ip. Inr True) [] [''10.0.0.1'', ''10.0.0.2''] = Some s1 \<and>
      scan_addresses 2 (\<lambda>ip. Inr True)
        [Submit, Submit, As_Completed, Worker_Start, Worker_Start,
         Worker_Finish ''10.0.0.2'', Worker_Finish ''10.0.0.1'',
         Next_Future ''10.0.0.2'', Next_Future ''10.0.0.1'']
        [''10.0.0.1'', ''10.0.0.2''] = Some s2 \<and>
      set (active s1) = set (active s2) \<and>
      set (active s1) = {''10.0.0.1'', ''10.0.0.2''})"
proof -
  let ?pr = "(\<lambda>ip. Inr True) :: probe"
  let ?sched = "[Submit, Submit, As_Completed, Worker_Start, Worker_Start,
                  Worker_Finish ''10.0.0.2'', Worker_Finish ''10.0.0.1'',
                  Next_Future ''10.0.0.2'', Next_Future ''10.0.0.1'']"
  have h1: "(0::nat) < 2" by simp
  have h2: "Signal \<notin> set []" by simp
  have h3: "Signal \<notin> set ?sched" by simp
  from scan_idempotent [OF h1 h2 h3, of ?pr "[''10.0.0.1'', ''10.0.0.2'']"]
  obtain s1 s2 where s: "scan_addresses 2 ?pr [] [''10.0.0.1'', ''10.0.0.2''] = Some s1"
    "scan_addresses 2 ?pr ?sched [''10.0.0.1'', ''10.0.0.2''] = Some s2"
    "set (active s1) = set (active s2)"
    "set (active s1) = {ip \<in> set [''10.0.0.1'', ''10.0.0.2'']. ?pr ip = Inr True}"
    by blast
  from s(4) have "set (active s1) = {''10.0.0.1'', ''10.0.0.2''}" by auto
  with s(1,2,3) h1 h2 h3 show ?thesis by blast
qed

subsection \<open>The addresses of a network are distinct 32-bit numbers\<close>

lemma ip_network_cases:
  assumes "ip_network parse txt = Inr net"
  obtains a p where "parse txt = Some (a, p)" "a < 2 ^ 32" "p \<le> 32"
    "net = \<lparr>network_address = a div 2 ^ (32 - p) * 2 ^ (32 - p), prefixlen = p\<rparr>"
proof -
  from assms obtain a p where ap: "parse txt = Some (a, p)" "a < 2 ^ 32" "p \<le> 32"
    by (auto simp: ip_network_def split: option.splits if_splits)
  from ip_network_ok [of parse "txt" a p] ap assms
  have "net = \<lparr>network_address = a div 2 ^ (32 - p) * 2 ^ (32 - p), prefixlen = p\<rparr>"
    by simp
  with ap show ?thesis by (rule that)
qed

lemma block_top_general:
  fixes a :: nat
  assumes "a < 2 ^ p * 2 ^ h"
  shows "a div 2 ^ h * 2 ^ h + 2 ^ h \<le> 2 ^ p * 2 ^ h"
proof -
  have "a div 2 ^ h < 2 ^ p"
    using assms by (simp add: less_mult_imp_div_less)
  then have "a div 2 ^ h + 1 \<le> 2 ^ p" by simp
  then have "(a div 2 ^ h + 1) * 2 ^ h \<le> 2 ^ p * 2 ^ h"
    by (rule mult_le_mono1)
  then show ?thesis by (simp add: add_mult_distrib)
qed

lemma block_top:
  fixes a :: nat
  assumes "a < 2 ^ 32" "p \<le> 32"
  shows "a div 2 ^ (32 - p) * 2 ^ (32 - p) + 2 ^ (32 - p) \<le> 2 ^ 32"
proof -
  have e: "(2::nat) ^ 32 = 2 ^ p * 2 ^ (32 - p)"
    using assms(2) by (simp add: power_add [symmetric])
  from assms(1) have "a < 2 ^ p * 2 ^ (32 - p)" unfolding e .
  then have "a div 2 ^ (32 - p) * 2 ^ (32 - p) + 2 ^ (32 - p) \<le> 2 ^ p * 2 ^ (32 - p)"
    by (rule block_top_general)
  then show ?thesis unfolding e .
qed

lemma hosts_valid:
  assumes "ip_network parse txt = Inr net"
  shows "distinct (hosts net) \<and> (\<forall>x\<in>set (hosts net). x < 2 ^ 32)"
proof -
  from assms obtain a p where ap: "parse txt = Some (a, p)" "a < 2 ^ 32" "p \<le> 32"
    and net: "net = \<lparr>network_address = a div 2 ^ (32 - p) * 2 ^ (32 - p), prefixlen = p\<rparr>"
    by (rule ip_network_cases)
  define n where "n = a div 2 ^ (32 - p) * 2 ^ (32 - p)"
  define w :: nat where "w = 2 ^ (32 - p)"
  define N :: nat where "N = 2 ^ 32"
  have w: "0 < w" by (simp add: w_def)
  have top: "n + w \<le> N"
    unfolding n_def w_def N_def using ap(2,3) by (rule block_top)
  have "broadcast_address net = n + (w - 1)"
    unfolding net n_def w_def using ap(3) by (rule broadcast_block)
  with top w have bb: "broadcast_address net < N" by simp
  have "network_address net = n" by (simp add: net n_def)
  with top w have nn: "network_address net < N" by simp
  have "distinct (hosts net)" by (simp add: hosts_def)
  moreover have "\<forall>x\<in>set (hosts net). x < N"
    using bb nn by (auto simp: hosts_def)
  ultimately show ?thesis unfolding N_def ..
qed

lemma hosts_str_distinct:
  assumes "ip_network parse txt = Inr net"
  shows "distinct (map str_ip (hosts net))"
proof -
  from hosts_valid [OF assms] have d: "distinct (hosts net)"
    and r: "\<forall>x\<in>set (hosts net). x < 2 ^ 32" by blast+
  have "inj_on str_ip (set (hosts net))"
  proof (rule inj_onI)
    fix x y
    assume "x \<in> set (hosts net)" "y \<in> set (hosts net)" and e: "str_ip x = str_ip y"
    with r have "x < 2 ^ 32" "y < 2 ^ 32" by blast+
    then show "x = y" using e by (rule str_ip_inj)
  qed
  with d show ?thesis by (simp add: distinct_map)
qed

lemma distinct_submset:
  assumes "mset xs \<subseteq># mset ys" "distinct ys"
  shows "distinct xs"
proof -
  have "count (mset xs) a = (if a \<in> set xs then 1 else 0)" for a
  proof (cases "a \<in> set xs")
    case True
    then have "1 \<le> count (mset xs) a" by (simp add: Suc_le_eq)
    moreover have "count (mset xs) a \<le> count (mset ys) a"
      using assms(1) by (rule mset_subset_eq_count)
    moreover have "count (mset ys) a \<le> 1"
      using assms(2) by (simp add: distinct_count_atmost_1)
    ultimately have "count (mset xs) a = 1" by linarith
    then show ?thesis using True by simp
  next
    case False
    then show ?thesis by (simp add: count_eq_zero_iff)
  qed
  then show ?thesis by (simp add: distinct_count_atmost_1)
qed

lemma scan_pool_ok:
  assumes "ip_network parse cidr = Inr net" "0 < workers"
  shows "\<exists>s. scan_pool parse system_name run sched cidr workers = Some (Inr s) \<and>
           scan_addresses (nat workers) (ping_host system_name run) sched
             (map str_ip (hosts net)) = Some s"
proof -
  from assms(2) have "0 < nat workers" by simp
  from scan_addresses_sound [OF this, of "ping_host system_name run" sched "map str_ip (hosts net)"]
  obtain s where "scan_addresses (nat workers) (ping_host system_name run) sched
             (map str_ip (hosts net)) = Some s" by blast
  with assms show ?thesis by (simp add: scan_pool_def)
qed

text \<open>
  Claim C10. For every network, every behaviour of the probe and every schedule the list
  that the scan returns has no duplicates and holds only enumerated host addresses of the
  network; the same is true of a scan of any list of distinct addresses with any probe,
  also one that raises.
\<close>

theorem active_distinct_enumerated:
  "(ip_network parse cidr = Inr net \<and> 0 < workers \<longrightarrow>
      (\<exists>act. scan_network parse system_name run sched cidr workers = Some (Inr act) \<and>
         distinct act \<and> set act \<subseteq> set (map str_ip (hosts net)))) \<and>
   (distinct addrs \<and> 0 < mw \<longrightarrow>
      (\<exists>s. scan_addresses mw pr sched addrs = Some s \<and>
         distinct (active s) \<and> set (active s) \<subseteq> set addrs \<and> set (active s) \<subseteq> set (started s)))"
proof -
  have general: "\<exists>s. scan_addresses mw pr sched addrs = Some s \<and>
         distinct (active s) \<and> set (active s) \<subseteq> set addrs \<and> set (active s) \<subseteq> set (started s)"
    if "distinct addrs" "0 < mw" for mw pr sched and addrs :: "string list"
  proof -
    from scan_addresses_sound [OF that(2), of pr sched addrs]
    obtain s where s: "scan_addresses mw pr sched addrs = Some s"
      "mset (active s) \<subseteq># mset addrs" "mset (started s) = mset addrs"
      by blast
    from s(2) that(1) have "distinct (active s)"
      by (rule distinct_submset)
    moreover from s(2) have sub: "set (active s) \<subseteq> set addrs"
      by (metis set_mset_mono set_mset_mset)
    moreover from s(3) have "set (started s) = set addrs" by (rule mset_eq_setD)
    ultimately show ?thesis using s(1) by blast
  qed
  have "\<exists>act. scan_network parse system_name run sched cidr workers = Some (Inr act) \<and>
         distinct act \<and> set act \<subseteq> set (map str_ip (hosts net))"
    if n: "ip_network parse cidr = Inr net" and w: "0 < workers"
  proof -
    from scan_pool_ok [OF n w, of system_name run sched]
    obtain s where s: "scan_pool parse system_name run sched cidr workers = Some (Inr s)"
      "scan_addresses (nat workers) (ping_host system_name run) sched
             (map str_ip (hosts net)) = Some s" by blast
    from w have "0 < nat workers" by simp
    from general [OF hosts_str_distinct [OF n] this, of "ping_host system_name run" sched] s(2)
    have "distinct (active s)" "set (active s) \<subseteq> set (map str_ip (hosts net))" by simp_all
    moreover have "scan_network parse system_name run sched cidr workers = Some (Inr (active s))"
      using s(1) by (simp add: scan_network_def)
    ultimately show ?thesis by blast
  qed
  with general show ?thesis by blast
qed

theorem active_distinct_enumerated_witness:
  "ip_network sample_parse ''192.168.1.0/30'' =
     Inr \<lparr>network_address = 3232235776, prefixlen = 30\<rparr> \<and>
   (0::int) < 1 \<and>
   (\<exists>act. scan_network sample_parse ''Linux'' (\<lambda>cmd. Completed 0) []
        ''192.168.1.0/30'' 1 = Some (Inr act) \<and>
      distinct act \<and> set act \<subseteq> {''192.168.1.1'', ''192.168.1.2''}) \<and>
   distinct [''10.0.0.1'', ''10.0.0.2''] \<and> (0::nat) < 1 \<and>
   (\<exists>s. scan_addresses 1 (\<lambda>ip. Inl TimeoutExpired) [] [''10.0.0.1'', ''10.0.0.2''] = Some s \<and>
      distinct (active s) \<and> set (active s) \<subseteq> {''10.0.0.1'', ''10.0.0.2''})"
proof -
  let ?net = "\<lparr>network_address = 3232235776, prefixlen = 30\<rparr>"
  have d: "distinct [''10.0.0.1'', ''10.0.0.2'']" by simp
  note t = active_distinct_enumerated [of sample_parse "''192.168.1.0/30''" ?net 1 "''Linux''"
      "\<lambda>cmd. Completed 0" "[]" "[''10.0.0.1'', ''10.0.0.2'']" 1 "\<lambda>ip. Inl TimeoutExpired"]
  from t sample_net sample_hosts
  have "\<exists>act. scan_network sample_parse ''Linux'' (\<lambda>cmd. Completed 0) []
        ''192.168.1.0/30'' 1 = Some (Inr act) \<and>
      distinct act \<and> set act \<subseteq> {''192.168.1.1'', ''192.168.1.2''}"
    by simp
  moreover from t d have "\<exists>s. scan_addresses 1 (\<lambda>ip. Inl TimeoutExpired) []
        [''10.0.0.1'', ''10.0.0.2''] = Some s \<and>
      distinct (active s) \<and> set (active s) \<subseteq> {''10.0.0.1'', ''10.0.0.2''}"
    by auto
  ultimately show ?thesis using sample_net d by simp
qed

text \<open>
  Claim C4. \<^verbatim>\<open>ping_host\<close> never raises: it returns true exactly when the ping command
  completes with return code 0, and false when the command times out or raises anything
  else. In the scan a probe that raises is skipped: the scan still returns a list, never an
  error, the list holds only addresses whose probe returned true, and without a signal it
  holds all of them.
\<close>

theorem probe_failure_absorbed:
  "ping_host system_name run ip =
     Inr (run (platform_ping_command system_name ip) = Completed 0) \<and>
   (run (platform_ping_command system_name ip) = Raised e \<longrightarrow>
      ping_host system_name run ip = Inr False) \<and>
   (0 < mw \<longrightarrow>
      (\<exists>s. scan_addresses mw pr sched addrs = Some s \<and> phase s = Done \<and>
         (\<forall>a\<in>set (active s). pr a = Inr True) \<and>
         (Signal \<notin> set sched \<longrightarrow> set (active s) = {a \<in> set addrs. pr a = Inr True}))) \<and>
   (ip_network parse cidr = Inr net \<and> 0 < workers \<longrightarrow>
      (\<exists>act. scan_network parse system_name run sched cidr workers = Some (Inr act)))"
proof -
  have p: "ping_host system_name run ip =
     Inr (run (platform_ping_command system_name ip) = Completed 0)"
    by (simp add: ping_host_def split: run_result.splits exn.splits)
  have q: "ping_host system_name run ip = Inr False"
    if "run (platform_ping_command system_name ip) = Raised e"
    using that by (simp add: p)
  have r: "\<exists>s. scan_addresses mw pr sched addrs = Some s \<and> phase s = Done \<and>
         (\<forall>a\<in>set (active s). pr a = Inr True) \<and>
         (Signal \<notin> set sched \<longrightarrow> set (active s) = {a \<in> set addrs. pr a = Inr True})"
    if "0 < mw"
  proof -
    from scan_addresses_sound [OF that, of pr sched addrs]
    obtain s where s: "scan_addresses mw pr sched addrs = Some s" "phase s = Done"
      "\<forall>a\<in>set (active s). pr a = Inr True"
      "Signal \<notin> set sched \<longrightarrow>
         mset (active s) = filter_mset (\<lambda>a. pr a = Inr True) (mset addrs)"
      by blast
    have "set (active s) = {a \<in> set addrs. pr a = Inr True}" if "Signal \<notin> set sched"
    proof -
      from s(4) that have "set_mset (mset (active s)) =
          set_mset (filter_mset (\<lambda>a. pr a = Inr True) (mset addrs))" by simp
      then show ?thesis by simp
    qed
    with s(1,2,3) show ?thesis by blast
  qed
  have t: "\<exists>act. scan_network parse system_name run sched cidr workers = Some (Inr act)"
    if "ip_network parse cidr = Inr net" "0 < workers"
    using scan_pool_ok [OF that, of system_name run sched] by (auto simp: scan_network_def)
  from p q r t show ?thesis by blast
qed

theorem probe_failure_absorbed_witness:
  "ping_host ''Linux'' (\<lambda>cmd. Raised TimeoutExpired) ''10.0.0.1'' = Inr False \<and>
   ping_host ''Windows'' (\<lambda>cmd. Raised (OSError ''ping not found'')) ''10.0.0.1'' = Inr False \<and>
   (0::nat) < 1 \<and>
   (\<exists>s. scan_addresses 1
          (\<lambda>a. if a = ''10.0.0.1'' then Inl (OtherError ''boom'') else Inr True) []
          [''10.0.0.1'', ''10.0.0.2''] = Some s \<and> phase s = Done \<and>
        set (active s) = {''10.0.0.2''})"
proof -
  let ?pr = "\<lambda>a. if a = ''10.0.0.1'' then Inl (OtherError ''boom'') else Inr True"
  have a: "ping_host ''Linux'' (\<lambda>cmd. Raised TimeoutExpired) ''10.0.0.1'' = Inr False"
    using probe_failure_absorbed [of "''Linux''" "\<lambda>cmd. Raised TimeoutExpired" "''10.0.0.1''"]
    by simp
  have b: "ping_host ''Windows'' (\<lambda>cmd. Raised (OSError ''ping not found'')) ''10.0.0.1'' = Inr False"
    using probe_failure_absorbed [of "''Windows''" "\<lambda>cmd. Raised (OSError ''ping not found'')"
        "''10.0.0.1''"]
    by simp
  from probe_failure_absorbed [of "''Linux''" "\<lambda>cmd. Raised TimeoutExpired" "''10.0.0.1''"
      TimeoutExpired 1 ?pr "[]" "[''10.0.0.1'', ''10.0.0.2'']" sample_parse "''x''"
      "\<lparr>network_address = 0, prefixlen = 0\<rparr>" 1]
  obtain s where s: "scan_addresses 1 ?pr [] [''10.0.0.1'', ''10.0.0.2''] = Some s"
    "phase s = Done"
    "set (active s) = {a \<in> set [''10.0.0.1'', ''10.0.0.2'']. ?pr a = Inr True}"
    by auto
  from s(3) have "set (active s) = {''10.0.0.2''}" by auto
  with a b s(1,2) show ?thesis by simp
qed

lemma pow_ge_4: "2 \<le> h \<Longrightarrow> (4::nat) \<le> 2 ^ h"
proof -
  assume "2 \<le> h"
  then obtain k where "h = 2 + k" using le_Suc_ex by blast
  then show ?thesis by (simp add: power_add)
qed

text \<open>
  Claim C9. Every valid network text is accepted, also one with host bits set: the
  network address is the address rounded down to the block, never an error. The
  enumeration is never empty: a /31 yields its two addresses, a /32 its single address.
\<close>

theorem degenerate_prefixes:
  assumes "parse t = Some (a, p)" "a < 2 ^ 32" "p \<le> 32"
  shows "\<exists>net. ip_network parse t = Inr net \<and>
           network_address net = a div 2 ^ (32 - p) * 2 ^ (32 - p) \<and>
           prefixlen net = p \<and>
           hosts net \<noteq> [] \<and>
           (p = 31 \<longrightarrow> hosts net = [network_address net, network_address net + 1] \<and>
                      a \<in> set (hosts net)) \<and>
           (p = 32 \<longrightarrow> hosts net = [a])"
proof -
  let ?h = "32 - p"
  let ?n = "a div 2 ^ ?h * 2 ^ ?h"
  let ?net = "\<lparr>network_address = ?n, prefixlen = p\<rparr>"
  have net: "ip_network parse t = Inr ?net"
    using assms by (rule ip_network_ok)
  have b: "broadcast_address ?net = ?n + (2 ^ ?h - 1)"
    using assms(3) by (rule broadcast_block)
  have c31: "hosts ?net = [?n, ?n + 1] \<and> a \<in> set (hosts ?net)" if "p = 31"
  proof -
    from that have h: "?h = 1" by simp
    have "hosts ?net = [?n ..< ?n + 2]" using that b by (simp add: hosts_def h)
    also have "\<dots> = [?n, ?n + 1]" by (simp add: upt_rec)
    finally have e: "hosts ?net = [?n, ?n + 1]" .
    have "a = ?n + a mod 2 ^ ?h" using div_mult_mod_eq [of a "2 ^ ?h"] by linarith
    moreover have "a mod 2 ^ ?h < 2" by (simp add: h)
    ultimately have "a = ?n \<or> a = ?n + 1" by linarith
    with e show ?thesis by auto
  qed
  have c32: "hosts ?net = [a]" if "p = 32"
    using that by (simp add: hosts_def)
  have ne: "hosts ?net \<noteq> []"
  proof (cases "p = 31 \<or> p = 32")
    case True
    with c31 c32 show ?thesis by auto
  next
    case False
    with assms(3) have "p \<le> 30" by simp
    then have h: "hosts ?net = [?n + 1 ..< ?n + (2 ^ ?h - 1)]" by (rule hosts_block)
    from \<open>p \<le> 30\<close> have "2 \<le> ?h" by simp
    then have "(4::nat) \<le> 2 ^ ?h" by (rule pow_ge_4)
    then have "?n + 1 < ?n + (2 ^ ?h - 1)" by simp
    then show ?thesis unfolding h by simp
  qed
  from net c31 c32 ne show ?thesis by auto
qed

theorem degenerate_prefixes_witness:
  "sample_parse ''10.0.0.5/31'' = Some (167772165, 31) \<and>
   (167772165::nat) < 2 ^ 32 \<and> (31::nat) \<le> 32 \<and>
   (\<exists>net. ip_network sample_parse ''10.0.0.5/31'' = Inr net \<and>
      network_address net = 167772164 \<and>
      hosts net = [167772164, 167772165] \<and>
      map str_ip (hosts net) = [''10.0.0.4'', ''10.0.0.5'']) \<and>
   sample_parse ''10.0.0.7/32'' = Some (167772167, 32) \<and>
   (\<exists>net. ip_network sample_parse ''10.0.0.7/32'' = Inr net \<and> hosts net = [167772167]) \<and>
   sample_parse ''192.168.1.5/24'' = Some (3232235781, 24) \<and>
   (\<exists>net. ip_network sample_parse ''192.168.1.5/24'' = Inr net \<and>
      network_address net = 3232235776 \<and> hosts net \<noteq> [])"
proof -
  have p: "sample_parse ''10.0.0.5/31'' = Some (167772165, 31)"
    and p32: "sample_parse ''10.0.0.7/32'' = Some (167772167, 32)"
    and p24: "sample_parse ''192.168.1.5/24'' = Some (3232235781, 24)"
    by (simp_all add: sample_parse_def)
  have a: "(167772165::nat) < 2 ^ 32" by simp
  have l: "(31::nat) \<le> 32" by simp
  from degenerate_prefixes [of sample_parse "''10.0.0.5/31''" 167772165 31] p a l
  obtain net where n: "ip_network sample_parse ''10.0.0.5/31'' = Inr net"
    "network_address net = 167772165 div 2 ^ (32 - 31) * 2 ^ (32 - 31)"
    "hosts net = [network_address net, network_address net + 1]"
    by blast
  from n(2) have na: "network_address net = 167772164" by simp
  with n(3) have h: "hosts net = [167772164, 167772165]" by simp
  have hs: "str_ip 167772164 = ''10.0.0.4''" "str_ip 167772165 = ''10.0.0.5''"
    by (simp_all add: str_ip_def to_bytes4_def str_nat.simps digit_def)
  have c31: "\<exists>net. ip_network sample_parse ''10.0.0.5/31'' = Inr net \<and>
      network_address net = 167772164 \<and>
      hosts net = [167772164, 167772165] \<and>
      map str_ip (hosts net) = [''10.0.0.4'', ''10.0.0.5'']"
    by (rule exI [of _ net]) (simp add: n(1) na h hs)
  have c32: "\<exists>net. ip_network sample_parse ''10.0.0.7/32'' = Inr net \<and> hosts net = [167772167]"
    using degenerate_prefixes [of sample_parse "''10.0.0.7/32''" 167772167 32] p32 by auto
  from degenerate_prefixes [of sample_parse "''192.168.1.5/24''" 3232235781 24] p24
  obtain net24 where m: "ip_network sample_parse ''192.168.1.5/24'' = Inr net24"
    "network_address net24 = 3232235781 div 2 ^ (32 - 24) * 2 ^ (32 - 24)"
    "hosts net24 \<noteq> []"
    by auto
  from m(2) have "network_address net24 = 3232235776" by simp
  then have c24: "\<exists>net. ip_network sample_parse ''192.168.1.5/24'' = Inr net \<and>
      network_address net = 3232235776 \<and> hosts net \<noteq> []"
    by (intro exI [of _ net24]) (simp add: m(1,3))
  from p a p32 p24 c31 c32 c24 show ?thesis by simp
qed

text \<open>
  Claim C2, at a concrete run. Network 192.168.1.0/30, one worker, both hosts answer.
  The signal arrives while the probe of 192.168.1.1 is in flight and 192.168.1.2 is still
  queued. The loop breaks at the first future it is given, dropping the finished, positive
  result of 192.168.1.1; leaving the \<^verbatim>\<open>with\<close> block then waits for the worker, which
  goes on to start the probe of 192.168.1.2 after the cancellation. The scan returns the
  empty list with both addresses probed.
\<close>

theorem cancellation_keeps_probing:
  "shutdown_requested
     (execute 1 (ping_host ''Linux'' (\<lambda>cmd. Completed 0))
        [Submit, Submit, As_Completed, Worker_Start, Signal]
        (pool_init [''192.168.1.1'', ''192.168.1.2''])) \<and>
   started
     (execute 1 (ping_host ''Linux'' (\<lambda>cmd. Completed 0))
        [Submit, Submit, As_Completed, Worker_Start, Signal]
        (pool_init [''192.168.1.1'', ''192.168.1.2''])) = [''192.168.1.1''] \<and>
   queue
     (execute 1 (ping_host ''Linux'' (\<lambda>cmd. Completed 0))
        [Submit, Submit, As_Completed, Worker_Start, Signal]
        (pool_init [''192.168.1.1'', ''192.168.1.2''])) = [''192.168.1.2''] \<and>
   scan_pool sample_parse ''Linux'' (\<lambda>cmd. Completed 0)
     [Submit, Submit, As_Completed, Worker_Start, Signal,
      Worker_Finish ''192.168.1.1'', Next_Future ''192.168.1.1'']
     ''192.168.1.0/30'' 1 =
   Some (Inr \<lparr>phase = Done, todo = [], queue = [], running = [],
               finished = [''192.168.1.2''], active = [], shutdown_requested = True,
               started = [''192.168.1.1'', ''192.168.1.2'']\<rparr>) \<and>
   scan_network sample_parse ''Linux'' (\<lambda>cmd. Completed 0)
     [Submit, Submit, As_Completed, Worker_Start, Signal,
      Worker_Finish ''192.168.1.1'', Next_Future ''192.168.1.1'']
     ''192.168.1.0/30'' 1 = Some (Inr [])"
proof -
  let ?pr = "ping_host ''Linux'' (\<lambda>cmd. Completed 0)"
  let ?addrs = "[''192.168.1.1'', ''192.168.1.2'']"
  let ?before = "[Submit, Submit, As_Completed, Worker_Start, Signal]"
  let ?sched = "[Submit, Submit, As_Completed, Worker_Start, Signal,
      Worker_Finish ''192.168.1.1'', Next_Future ''192.168.1.1'']"
  let ?mid = "\<lparr>phase = Exiting, todo = [], queue = [''192.168.1.2''], running = [],
               finished = [], active = [], shutdown_requested = True,
               started = [''192.168.1.1'']\<rparr>"
  let ?end = "\<lparr>phase = Done, todo = [], queue = [], running = [],
               finished = [''192.168.1.2''], active = [], shutdown_requested = True,
               started = [''192.168.1.1'', ''192.168.1.2'']\<rparr>"
  have s1: "execute 1 ?pr ?before (pool_init ?addrs) =
      \<lparr>phase = Collecting, todo = [], queue = [''192.168.1.2''],
       running = [''192.168.1.1''], finished = [], active = [],
       shutdown_requested = True, started = [''192.168.1.1'']\<rparr>"
    by (simp add: pool_init_def fire_def)
  have s2: "execute 1 ?pr ?sched (pool_init ?addrs) = ?mid"
    by (simp add: pool_init_def fire_def)
  have d: "drain 1 ?pr ?mid = Some ?end"
    by (simp add: drain.simps next_state_def default_event_def)
  have "scan_addresses 1 ?pr ?sched ?addrs = Some ?end"
    by (simp only: scan_addresses_def s2 d)
  then have p: "scan_pool sample_parse ''Linux'' (\<lambda>cmd. Completed 0) ?sched ''192.168.1.0/30'' 1
      = Some (Inr ?end)"
    by (simp add: scan_pool_def sample_net sample_hosts)
  then have "scan_network sample_parse ''Linux'' (\<lambda>cmd. Completed 0) ?sched ''192.168.1.0/30'' 1
      = Some (Inr [])"
    by (simp add: scan_network_def)
  with s1 p show ?thesis by simp
qed

section \<open>Facts about saving and the command\<close>


lemma os_open_at:
  "os_open files fname mode fname =
     Some \<lparr>fmode = (case files fname of None \<Rightarrow> mode | Some f \<Rightarrow> fmode f), fdata = []\<rparr>"
  by (simp add: os_open_def split: option.splits)

lemma os_open_other: "g \<noteq> fname \<Longrightarrow> os_open files fname mode g = files g"
  by (simp add: os_open_def split: option.splits)






lemma save_failure:
  assumes "open_error os = None" "write_error os = Some (k, m)"
  shows "save_results_securely os hs filename files =
           (Inl (OSError m),
            (case remove_error os of
               None \<Rightarrow> files(chosen_filename os filename := None)
             | Some m' \<Rightarrow>
                 files(chosen_filename os filename \<mapsto>
                   \<lparr>fmode = (case files (chosen_filename os filename) of
                               None \<Rightarrow> SAVE_FILE_MODE | Some f \<Rightarrow> fmode f),
                    fdata = concat (take k (chunks os hs))\<rparr>)))"
proof -
  let ?f = "chosen_filename os filename"
  let ?part = "append_data (os_open files ?f SAVE_FILE_MODE) ?f (concat (take k (chunks os hs)))"
  have p: "?part = files(?f \<mapsto>
      \<lparr>fmode = (case files ?f of None \<Rightarrow> SAVE_FILE_MODE | Some f \<Rightarrow> fmode f),
       fdata = concat (take k (chunks os hs))\<rparr>)"
    by (rule ext) (simp add: append_data_def os_open_def split: option.splits)
  have "save_results_securely os hs filename files =
      (Inl (OSError m), (case remove_error os of None \<Rightarrow> ?part(?f := None) | Some m' \<Rightarrow> ?part))"
    using assms by (simp add: save_results_securely_def Let_def)
  then show ?thesis unfolding p by (simp split: option.splits)
qed


text \<open>
  Claim C8 as stated fails when the removal fails too: \<^verbatim>\<open>os.remove\<close> is inside
  \<^verbatim>\<open>try ... except Exception: pass\<close>, so the partial file stays. Here the first write
  reaches the file, the second fails, and the removal is refused.
\<close>

theorem save_failure_leaves_file:
  "save_results_securely
     (sample_os\<lparr>write_error := Some (1, ''No space left on device''),
                remove_error := Some ''Permission denied''\<rparr>)
     [''192.168.1.1''] None Map.empty =
   (Inl (OSError ''No space left on device''),
    [''/tmp/scan_20240101T120000Z.txt'' \<mapsto>
       \<lparr>fmode = 384, fdata = ''Scan results - host discovery'' @ [CHR 0x0A]\<rparr>])"
  by (simp add: save_results_securely_def chosen_filename_def sample_os_def
      default_filename_def posix_join_def chunks_def os_open_def append_data_def
      SAVE_FILE_MODE_def Let_def)

text \<open>
  Claim C8, amended. If a write to the results file fails, the save raises that same
  error again, whatever the removal does, and the process exits with status 1; the file is
  gone afterwards when the removal succeeds (a failure of the removal is ignored).
\<close>

theorem save_failure_cleanup:
  assumes "open_error os = None" "write_error os = Some (k, m)"
  shows "fst (save_results_securely os hs filename files) = Inl (OSError m) \<and>
         (remove_error os = None \<longrightarrow>
            snd (save_results_securely os hs filename files) =
              files(chosen_filename os filename := None)) \<and>
         (confirm_legal a \<and> 1 \<le> max_workers a \<and> max_workers a \<le> 200 \<and> save a \<and>
          ip_network parse (network a) = Inr net \<longrightarrow>
            (\<exists>out. main parse system_name run sched os files a = Some out \<and>
               exit_status out = 1 \<and>
               (remove_error os = None \<longrightarrow> files_after out (default_filename os) = None)))"
proof -
  note sf = save_failure [OF assms]
  have a1: "fst (save_results_securely os hs filename files) = Inl (OSError m)"
    by (simp add: sf)
  have a2: "snd (save_results_securely os hs filename files) =
      files(chosen_filename os filename := None)" if "remove_error os = None"
    using that by (simp add: sf)
  have a3: "\<exists>out. main parse system_name run sched os files a = Some out \<and>
               exit_status out = 1 \<and>
               (remove_error os = None \<longrightarrow> files_after out (default_filename os) = None)"
    if h: "confirm_legal a" "1 \<le> max_workers a" "max_workers a \<le> 200" "save a"
      "ip_network parse (network a) = Inr net"
  proof -
    from h(2) have "0 < max_workers a" by simp
    from scan_pool_ok [OF h(5) this, of system_name run sched]
    obtain s where s: "scan_pool parse system_name run sched (network a) (max_workers a) =
        Some (Inr s)" by blast
    have f: "chosen_filename os None = default_filename os"
      by (simp add: chosen_filename_def)
    show ?thesis
      using h s save_failure [OF assms, of "active s" None files]
      by (simp add: main_def f exit_for_def split: option.splits)
  qed
  from a1 a2 a3 show ?thesis by blast
qed

theorem save_failure_cleanup_witness:
  "open_error (sample_os\<lparr>write_error := Some (1, ''No space left on device'')\<rparr>) = None \<and>
   write_error (sample_os\<lparr>write_error := Some (1, ''No space left on device'')\<rparr>) =
     Some (1, ''No space left on device'') \<and>
   remove_error (sample_os\<lparr>write_error := Some (1, ''No space left on device'')\<rparr>) = None \<and>
   save_results_securely (sample_os\<lparr>write_error := Some (1, ''No space left on device'')\<rparr>)
     [''192.168.1.1''] None Map.empty =
     (Inl (OSError ''No space left on device''), Map.empty) \<and>
   ip_network sample_parse ''192.168.1.0/30'' =
     Inr \<lparr>network_address = 3232235776, prefixlen = 30\<rparr> \<and>
   (\<exists>out. main sample_parse ''Linux'' (\<lambda>cmd. Completed 0) []
        (sample_os\<lparr>write_error := Some (1, ''No space left on device'')\<rparr>) Map.empty
        \<lparr>network = ''192.168.1.0/30'', confirm_legal = True, save = True, max_workers = 30\<rparr>
      = Some out \<and> exit_status out = 1 \<and>
      files_after out ''/tmp/scan_20240101T120000Z.txt'' = None)"
proof -
  let ?os = "sample_os\<lparr>write_error := Some (1, ''No space left on device'')\<rparr>"
  let ?a = "\<lparr>network = ''192.168.1.0/30'', confirm_legal = True, save = True,
            max_workers = 30\<rparr>"
  have o: "open_error ?os = None"
    and w: "write_error ?os = Some (1, ''No space left on device'')"
    and r: "remove_error ?os = None"
    by (simp_all add: sample_os_def)
  have d: "default_filename ?os = ''/tmp/scan_20240101T120000Z.txt''"
    by (simp add: default_filename_def sample_os_def posix_join_def)
  note t = save_failure_cleanup [OF o w, of "[''192.168.1.1'']" None Map.empty ?a sample_parse
      "\<lparr>network_address = 3232235776, prefixlen = 30\<rparr>" "''Linux''" "\<lambda>cmd. Completed 0" "[]"]
  from t r have "save_results_securely ?os [''192.168.1.1''] None Map.empty =
      (Inl (OSError ''No space left on device''), Map.empty)"
    by (simp add: prod_eq_iff)
  moreover from t r sample_net d
  have "\<exists>out. main sample_parse ''Linux'' (\<lambda>cmd. Completed 0) [] ?os Map.empty ?a = Some out \<and>
      exit_status out = 1 \<and> files_after out ''/tmp/scan_20240101T120000Z.txt'' = None"
    by simp
  ultimately show ?thesis using o w r sample_net by simp
qed




end
